theory Spec2Isabelle
  imports Complex_Main
begin

section \<open>The silence slicer of \<open>finetune_gradio.py\<close>\<close>

text \<open>
  A shallow embedding of class \<open>Slicer\<close> (\<open>src/f5_tts/train/finetune_gradio.py\<close>,
  lines 181 to 294). Amplitudes, energies and the linear threshold are Python floats; they
  are idealised as \<open>real\<close> (the slicer only compares them, NaN is left out). Frame and
  sample indices are Python integers, modelled as \<open>int\<close>. Exceptions are values of type
  \<open>error\<close>, on the left of a sum.
\<close>

subsection \<open>Errors and the error monad\<close>

datatype error =
    ValueError string
  | ZeroDivisionError
  | EnvelopeError string

definition ebind :: "error + 'a \<Rightarrow> ('a \<Rightarrow> error + 'b) \<Rightarrow> error + 'b" where
  "ebind m f = (case m of Inl e \<Rightarrow> Inl e | Inr x \<Rightarrow> f x)"

subsection \<open>Python and numpy primitives\<close>

text \<open>Python 3 \<open>round\<close> on a float: to the nearest integer, a tie goes to the even one.\<close>

definition py_round :: "real \<Rightarrow> int" where
  "py_round x =
     (let f = \<lfloor>x\<rfloor>; d = x - of_int f
      in if d < 1 / 2 then f else if 1 / 2 < d then f + 1 else if even f then f else f + 1)"

text \<open>\<open>xs[a:b]\<close>: a negative bound counts from the end, both bounds are clipped.\<close>

definition py_slice :: "'a list \<Rightarrow> int \<Rightarrow> int \<Rightarrow> 'a list" where
  "py_slice xs a b =
     (let n = int (length xs);
          lo = (if a < 0 then max 0 (a + n) else min a n);
          hi = (if b < 0 then max 0 (b + n) else min b n)
      in take (nat (hi - lo)) (drop (nat lo) xs))"

text \<open>
  \<open>ndarray.argmin()\<close>: one pass from the left that keeps the index of the smallest value
  seen so far and replaces it only by a strictly smaller value; an empty array raises
  \<open>ValueError\<close>.
\<close>

fun argmin_scan :: "real list \<Rightarrow> nat \<Rightarrow> real \<Rightarrow> nat \<Rightarrow> nat" where
  "argmin_scan [] k best bi = bi"
| "argmin_scan (x # xs) k best bi =
     (if x < best then argmin_scan xs (Suc k) x k else argmin_scan xs (Suc k) best bi)"

definition argmin :: "real list \<Rightarrow> error + int" where
  "argmin xs =
     (case xs of
        [] \<Rightarrow> Inl (ValueError ''attempt to get argmin of an empty sequence'')
      | x # rest \<Rightarrow> Inr (int (argmin_scan rest 1 x 0)))"

text \<open>The idiom \<open>rms_list[a:b].argmin() + a\<close> of every minimum-energy search.\<close>

definition argmin_at :: "real list \<Rightarrow> int \<Rightarrow> int \<Rightarrow> error + int" where
  "argmin_at rms_list a b = ebind (argmin (py_slice rms_list a b)) (\<lambda>p. Inr (p + a))"

subsection \<open>Waveforms\<close>

text \<open>
  A numpy array of shape \<open>(n,)\<close> or of shape \<open>(channels, n)\<close>; the rows of a
  two-dimensional array all have the length of the first.
\<close>

datatype waveform = Mono "real list" | Multi "real list list"

definition shape1 :: "real list list \<Rightarrow> int" where
  "shape1 rows = (case rows of [] \<Rightarrow> 0 | r # _ \<Rightarrow> int (length r))"

definition mean_axis0 :: "real list list \<Rightarrow> real list" where
  "mean_axis0 rows = map (\<lambda>col. sum_list col / of_nat (length col)) (transpose rows)"

definition num_samples :: "waveform \<Rightarrow> int" where
  "num_samples w = (case w of Mono xs \<Rightarrow> int (length xs) | Multi rows \<Rightarrow> shape1 rows)"

text \<open>Lines 211 to 214: the channels are averaged, a one-dimensional array is used as it is.\<close>

definition mono_samples :: "waveform \<Rightarrow> real list" where
  "mono_samples w = (case w of Multi rows \<Rightarrow> mean_axis0 rows | Mono xs \<Rightarrow> xs)"

subsection \<open>\<open>Slicer.__init__\<close>\<close>

record slicer =
  threshold :: real
  hop_size :: int
  win_size :: int
  min_length :: int
  min_interval :: int
  max_sil_kept :: int

text \<open>
  The arguments are the sample rate, the threshold in dB and the four durations in
  milliseconds. \<open>/\<close> is float division; dividing by a \<open>hop_size\<close> that was rounded to
  zero raises \<open>ZeroDivisionError\<close>.
\<close>

definition Slicer_init :: "int \<Rightarrow> real \<Rightarrow> int \<Rightarrow> int \<Rightarrow> int \<Rightarrow> int \<Rightarrow> error + slicer" where
  "Slicer_init sr threshold_db min_length_ms min_interval_ms hop_size_ms max_sil_kept_ms =
     (if \<not> (min_length_ms \<ge> min_interval_ms \<and> min_interval_ms \<ge> hop_size_ms) then
        Inl (ValueError ''The following condition must be satisfied: min_length >= min_interval >= hop_size'')
      else if \<not> (max_sil_kept_ms \<ge> hop_size_ms) then
        Inl (ValueError ''The following condition must be satisfied: max_sil_kept >= hop_size'')
      else
        let min_interval_f = real_of_int (sr * min_interval_ms) / 1000;
            hop = py_round (real_of_int (sr * hop_size_ms) / 1000);
            win = min (py_round min_interval_f) (4 * hop)
        in if hop = 0 then Inl ZeroDivisionError
           else Inr \<lparr> threshold = 10 powr (threshold_db / 20),
                      hop_size = hop,
                      win_size = win,
                      min_length = py_round (real_of_int (sr * min_length_ms) / 1000 / real_of_int hop),
                      min_interval = py_round (min_interval_f / real_of_int hop),
                      max_sil_kept = py_round (real_of_int (sr * max_sil_kept_ms) / 1000 / real_of_int hop) \<rparr>)"

subsection \<open>\<open>Slicer._apply_slice\<close>\<close>

definition apply_slice :: "slicer \<Rightarrow> waveform \<Rightarrow> int \<Rightarrow> int \<Rightarrow> waveform" where
  "apply_slice sl w begin_f end_f =
     (case w of
        Multi rows \<Rightarrow>
          Multi (map (\<lambda>r. py_slice r (begin_f * hop_size sl) (min (shape1 rows) (end_f * hop_size sl))) rows)
      | Mono xs \<Rightarrow>
          Mono (py_slice xs (begin_f * hop_size sl) (min (int (length xs)) (end_f * hop_size sl))))"

subsection \<open>\<open>Slicer.slice\<close>: the scan\<close>

record scan_state =
  silence_start :: "int option"
  clip_start :: int
  sil_tags :: "(int \<times> int) list"

definition init_state :: scan_state where
  "init_state = \<lparr> silence_start = None, clip_start = 0, sil_tags = [] \<rparr>"

definition is_leading_silence :: "slicer \<Rightarrow> int \<Rightarrow> int \<Rightarrow> bool" where
  "is_leading_silence sl ss i = (ss = 0 \<and> i > max_sil_kept sl)"

definition need_slice_middle :: "slicer \<Rightarrow> int \<Rightarrow> int \<Rightarrow> int \<Rightarrow> bool" where
  "need_slice_middle sl ss cs i = (i - ss \<ge> min_interval sl \<and> i - cs \<ge> min_length sl)"

text \<open>The three ways to place the cut of a silence run \<open>[ss, i)\<close> (lines 238 to 264).\<close>

definition commit_cut :: "slicer \<Rightarrow> real list \<Rightarrow> int \<Rightarrow> int \<Rightarrow> scan_state \<Rightarrow> error + scan_state" where
  "commit_cut sl rms_list ss i st =
     (let m = max_sil_kept sl in
      if i - ss \<le> m then
        ebind (argmin_at rms_list ss (i + 1)) (\<lambda>pos.
          Inr (st \<lparr> silence_start := None, clip_start := pos,
                    sil_tags := sil_tags st @ [if ss = 0 then (0, pos) else (pos, pos)] \<rparr>))
      else if i - ss \<le> m * 2 then
        ebind (argmin_at rms_list (i - m) (ss + m + 1)) (\<lambda>pos.
        ebind (argmin_at rms_list ss (ss + m + 1)) (\<lambda>pos_l.
        ebind (argmin_at rms_list (i - m) (i + 1)) (\<lambda>pos_r.
          if ss = 0 then
            Inr (st \<lparr> silence_start := None, clip_start := pos_r,
                      sil_tags := sil_tags st @ [(0, pos_r)] \<rparr>)
          else
            Inr (st \<lparr> silence_start := None, clip_start := max pos_r pos,
                      sil_tags := sil_tags st @ [(min pos_l pos, max pos_r pos)] \<rparr>))))
      else
        ebind (argmin_at rms_list ss (ss + m + 1)) (\<lambda>pos_l.
        ebind (argmin_at rms_list (i - m) (i + 1)) (\<lambda>pos_r.
          Inr (st \<lparr> silence_start := None, clip_start := pos_r,
                    sil_tags := sil_tags st @ [if ss = 0 then (0, pos_r) else (pos_l, pos_r)] \<rparr>))))"

text \<open>One iteration of \<open>for i, rms in enumerate(rms_list)\<close> (lines 221 to 264).\<close>

definition scan_body :: "slicer \<Rightarrow> real list \<Rightarrow> int \<Rightarrow> real \<Rightarrow> scan_state \<Rightarrow> error + scan_state" where
  "scan_body sl rms_list i rms st =
     (if rms < threshold sl then
        (case silence_start st of
           None \<Rightarrow> Inr (st \<lparr> silence_start := Some i \<rparr>)
         | Some ss \<Rightarrow> Inr st)
      else
        (case silence_start st of
           None \<Rightarrow> Inr st
         | Some ss \<Rightarrow>
             if \<not> is_leading_silence sl ss i \<and> \<not> need_slice_middle sl ss (clip_start st) i then
               Inr (st \<lparr> silence_start := None \<rparr>)
             else commit_cut sl rms_list ss i st))"

fun scan_loop :: "slicer \<Rightarrow> real list \<Rightarrow> int \<Rightarrow> real list \<Rightarrow> scan_state \<Rightarrow> error + scan_state" where
  "scan_loop sl rms_list i [] st = Inr st"
| "scan_loop sl rms_list i (rms # rest) st =
     ebind (scan_body sl rms_list i rms st) (scan_loop sl rms_list (i + 1) rest)"

text \<open>The trailing silence (lines 266 to 270); returns the final \<open>sil_tags\<close>.\<close>

definition trailing :: "slicer \<Rightarrow> real list \<Rightarrow> scan_state \<Rightarrow> error + (int \<times> int) list" where
  "trailing sl rms_list st =
     (let total_frames = int (length rms_list) in
      case silence_start st of
        None \<Rightarrow> Inr (sil_tags st)
      | Some ss \<Rightarrow>
          if total_frames - ss \<ge> min_interval sl then
            (let silence_end = min total_frames (ss + max_sil_kept sl) in
             ebind (argmin_at rms_list ss (silence_end + 1)) (\<lambda>pos.
               Inr (sil_tags st @ [(pos, total_frames + 1)])))
          else Inr (sil_tags st))"

subsection \<open>\<open>Slicer.slice\<close>: the result\<close>

text \<open>
  An element of the returned list: the bare waveform of line 216, or the list
  \<open>[chunk, start, end]\<close> of lines 273 to 293.
\<close>

datatype chunk = Bare waveform | Triple waveform int int

definition make_chunks :: "slicer \<Rightarrow> waveform \<Rightarrow> int \<Rightarrow> (int \<times> int) list \<Rightarrow> chunk list" where
  "make_chunks sl w total_frames tags =
     (if length tags = 0 then [Triple w 0 (total_frames * hop_size sl)]
      else
        (if fst (tags ! 0) > 0
         then [Triple (apply_slice sl w 0 (fst (tags ! 0))) 0 (fst (tags ! 0) * hop_size sl)]
         else [])
        @ map (\<lambda>i. Triple (apply_slice sl w (snd (tags ! i)) (fst (tags ! (i + 1))))
                          (snd (tags ! i) * hop_size sl)
                          (fst (tags ! (i + 1)) * hop_size sl))
              [0 ..< length tags - 1]
        @ (if snd (last tags) < total_frames
           then [Triple (apply_slice sl w (snd (last tags)) total_frames)
                        (snd (last tags) * hop_size sl) (total_frames * hop_size sl)]
           else []))"

text \<open>
  The cut ranges of an envelope: the scan from the initial state, then the trailing
  silence.
\<close>

definition cut_ranges :: "slicer \<Rightarrow> real list \<Rightarrow> error + (int \<times> int) list" where
  "cut_ranges sl rms_list =
     ebind (scan_loop sl rms_list 0 rms_list init_state) (trailing sl rms_list)"

text \<open>
  \<open>slice\<close>. The envelope \<open>librosa.feature.rms(y, frame_length, hop_length)\<close> is computed
  by a library; it is the parameter \<open>rms_fn\<close>, which may fail.
\<close>

definition slice ::
  "(real list \<Rightarrow> int \<Rightarrow> int \<Rightarrow> error + real list) \<Rightarrow> slicer \<Rightarrow> waveform \<Rightarrow> error + chunk list" where
  "slice rms_fn sl w =
     (let samples = mono_samples w in
      if int (length samples) \<le> min_length sl then Inr [Bare w]
      else
        ebind (rms_fn samples (win_size sl) (hop_size sl)) (\<lambda>rms_list.
        ebind (cut_ranges sl rms_list) (\<lambda>tags.
          Inr (make_chunks sl w (int (length rms_list)) tags))))"

subsection \<open>Notions used in the statements\<close>

text \<open>
  \<open>first_min rms_list lo hi p\<close>: frame \<open>p\<close> is the first frame of least energy among the
  frames \<open>lo, \<dots>, hi\<close> that exist.
\<close>

definition first_min :: "real list \<Rightarrow> int \<Rightarrow> int \<Rightarrow> int \<Rightarrow> bool" where
  "first_min rms_list lo hi p =
     (lo \<le> p \<and> p \<le> hi \<and> p < int (length rms_list) \<and>
      (\<forall>j \<in> set [lo..hi]. j < int (length rms_list) \<longrightarrow> rms_list ! nat p \<le> rms_list ! nat j) \<and>
      (\<forall>j \<in> set [lo..p - 1]. rms_list ! nat p < rms_list ! nat j))"

text \<open>The invariant of the scan: the cut ranges lie in order, before the open silence run.\<close>

definition tags_sorted :: "(int \<times> int) list \<Rightarrow> bool" where
  "tags_sorted tags = sorted_wrt (\<lambda>a b. snd a < fst b) tags"

definition tags_within :: "int \<Rightarrow> (int \<times> int) list \<Rightarrow> bool" where
  "tags_within bnd tags = (\<forall>t \<in> set tags. 0 \<le> fst t \<and> fst t \<le> snd t \<and> snd t < bnd)"

definition scan_inv :: "int \<Rightarrow> scan_state \<Rightarrow> bool" where
  "scan_inv i st =
     (tags_sorted (sil_tags st) \<and>
      (case silence_start st of
         None \<Rightarrow> tags_within i (sil_tags st)
       | Some ss \<Rightarrow> 0 \<le> ss \<and> ss < i \<and> tags_within ss (sil_tags st)))"

text \<open>
  The sample range of a returned element: the offsets a triple reports; a bare waveform
  reports none and stands for the whole input.
\<close>

fun chunk_start :: "chunk \<Rightarrow> int" where
  "chunk_start (Bare w) = 0"
| "chunk_start (Triple c s e) = s"

fun chunk_end :: "chunk \<Rightarrow> int" where
  "chunk_end (Bare w) = num_samples w"
| "chunk_end (Triple c s e) = e"

text \<open>
  An envelope provider for concrete runs: it answers with the given frame energies, as a
  run of the library on a waveform with these energies does.
\<close>

definition fixed_envelope :: "real list \<Rightarrow> real list \<Rightarrow> int \<Rightarrow> int \<Rightarrow> error + real list" where
  "fixed_envelope frames y frame_length hop_length = Inr frames"

section \<open>Properties of the primitives\<close>

subsection \<open>\<open>argmin\<close> returns the first minimum\<close>

lemma argmin_scan_first:
  assumes "xs = drop k ys" "bi < k" "k \<le> length ys" "best = ys ! bi"
    "\<forall>j<k. ys ! bi \<le> ys ! j" "\<forall>j<bi. ys ! bi < ys ! j"
  shows "argmin_scan xs k best bi < length ys \<and>
         (\<forall>j<length ys. ys ! argmin_scan xs k best bi \<le> ys ! j) \<and>
         (\<forall>j<argmin_scan xs k best bi. ys ! argmin_scan xs k best bi < ys ! j)"
  using assms
proof (induction xs arbitrary: k best bi)
  case Nil
  then have "k = length ys" by simp
  with Nil show ?case by simp
next
  case (Cons x xs)
  from Cons.prems(1) have klt: "k < length ys"
    by (metis drop_all linorder_not_less list.distinct(1))
  from Cons.prems(1) klt have x: "x = ys ! k" and xs: "xs = drop (Suc k) ys"
    by (metis Cons_nth_drop_Suc list.inject)+
  show ?case
  proof (cases "x < best")
    case True
    have step: "argmin_scan (x # xs) k best bi = argmin_scan xs (Suc k) x k"
      using True by simp
    have a: "\<forall>j<Suc k. ys ! k \<le> ys ! j"
      using True x Cons.prems(4,5) by (metis less_Suc_eq less_le_not_le linorder_le_cases order.trans)
    have b: "\<forall>j<k. ys ! k < ys ! j"
      using True x Cons.prems(4,5) by (metis less_le_trans)
    have "k < Suc k" "Suc k \<le> length ys" using klt by simp_all
    from Cons.IH [OF xs this x a b] show ?thesis
      unfolding step .
  next
    case False
    have step: "argmin_scan (x # xs) k best bi = argmin_scan xs (Suc k) best bi"
      using False by simp
    have a: "\<forall>j<Suc k. ys ! bi \<le> ys ! j"
      using False x Cons.prems(4,5) by (metis less_Suc_eq linorder_not_less)
    have "bi < Suc k" "Suc k \<le> length ys" using klt Cons.prems(2) by simp_all
    from Cons.IH [OF xs this Cons.prems(4) a Cons.prems(6)] show ?thesis
      unfolding step .
  qed
qed

lemma argmin_first:
  assumes "argmin xs = Inr p"
  shows "0 \<le> p \<and> nat p < length xs \<and> (\<forall>j<length xs. xs ! nat p \<le> xs ! j) \<and>
         (\<forall>j<nat p. xs ! nat p < xs ! j)"
proof (cases xs)
  case Nil
  with assms show ?thesis by (simp add: argmin_def)
next
  case (Cons x rest)
  with assms have p: "p = int (argmin_scan rest 1 x 0)" by (simp add: argmin_def)
  have "argmin_scan rest 1 x 0 < length xs \<and>
         (\<forall>j<length xs. xs ! argmin_scan rest 1 x 0 \<le> xs ! j) \<and>
         (\<forall>j<argmin_scan rest 1 x 0. xs ! argmin_scan rest 1 x 0 < xs ! j)"
    by (rule argmin_scan_first) (simp_all add: Cons)
  with p show ?thesis by simp
qed

lemma argmin_defined: "xs \<noteq> [] \<Longrightarrow> \<exists>p. argmin xs = Inr p"
  by (cases xs) (simp_all add: argmin_def)

lemma py_slice_nonneg:
  assumes "0 \<le> a" "0 \<le> b"
  shows "py_slice xs a b = take (nat (min b (int (length xs)) - a)) (drop (nat a) xs)"
  using assms by (auto simp: py_slice_def Let_def min_def)

lemma argmin_at_defined:
  assumes "0 \<le> a" "a < b" "a < int (length rms_list)"
  shows "\<exists>p. argmin_at rms_list a b = Inr p"
proof -
  have "py_slice rms_list a b \<noteq> []"
    using assms by (auto simp: py_slice_nonneg min_def)
  then obtain q where "argmin (py_slice rms_list a b) = Inr q"
    using argmin_defined by blast
  then show ?thesis by (simp add: argmin_at_def ebind_def)
qed

lemma argmin_at_first:
  assumes "argmin_at rms_list a b = Inr p" "0 \<le> a" "0 \<le> b"
  shows "first_min rms_list a (b - 1) p"
proof -
  let ?n = "int (length rms_list)"
  let ?s = "py_slice rms_list a b"
  from assms(1) obtain q where q: "argmin ?s = Inr q" and p: "p = q + a"
    by (auto simp: argmin_at_def ebind_def split: sum.splits)
  have s: "?s = take (nat (min b ?n - a)) (drop (nat a) rms_list)"
    using assms by (simp add: py_slice_nonneg)
  from argmin_first [OF q]
  have q0: "0 \<le> q" and ql: "nat q < length ?s"
    and qmin: "\<forall>j<length ?s. ?s ! nat q \<le> ?s ! j"
    and qfst: "\<forall>j<nat q. ?s ! nat q < ?s ! j" by auto
  have "nat (min b ?n - a) \<le> length rms_list - nat a"
    using assms(2) by linarith
  then have len: "length ?s = nat (min b ?n - a)"
    by (simp add: s)
  have nth: "?s ! j = rms_list ! (nat a + j)" if "j < length ?s" for j
  proof -
    have "nat a \<le> length rms_list" using that s by auto
    then show ?thesis using that s by (simp add: nth_drop)
  qed
  have pb: "p < b" "p < ?n" "a \<le> p"
    using ql len p q0 by auto
  have np: "nat p = nat a + nat q" using p q0 assms(2) by (simp add: nat_add_distrib)
  have m1: "rms_list ! nat p \<le> rms_list ! nat j" if "a \<le> j" "j \<le> b - 1" "j < ?n" for j
  proof -
    have "nat (j - a) < length ?s" using that len by auto
    then have "?s ! nat q \<le> ?s ! nat (j - a)" using qmin by blast
    moreover have "nat a + nat (j - a) = nat j" using that assms(2) by auto
    ultimately show ?thesis using nth ql \<open>nat (j - a) < length ?s\<close> np by metis
  qed
  have m2: "rms_list ! nat p < rms_list ! nat j" if "a \<le> j" "j \<le> p - 1" for j
  proof -
    have lt: "nat (j - a) < nat q" using that p q0 by auto
    then have "?s ! nat q < ?s ! nat (j - a)" using qfst by blast
    moreover have "nat a + nat (j - a) = nat j" using that assms(2) by auto
    moreover have "nat (j - a) < length ?s" using lt ql by linarith
    ultimately show ?thesis using nth ql np by metis
  qed
  show ?thesis
    unfolding first_min_def using pb m1 m2 by auto
qed

subsection \<open>Committing a cut\<close>

lemma first_min_bounds: "first_min rms_list lo hi p \<Longrightarrow> lo \<le> p \<and> p \<le> hi \<and> p < int (length rms_list)"
  by (simp add: first_min_def)

lemma argmin_at_ex:
  assumes "0 \<le> a" "a \<le> h" "a < int (length rms_list)"
  shows "\<exists>p. argmin_at rms_list a (h + 1) = Inr p \<and> first_min rms_list a h p"
proof -
  from assms obtain p where p: "argmin_at rms_list a (h + 1) = Inr p"
    using argmin_at_defined [of a "h + 1" rms_list] by auto
  from argmin_at_first [OF p] assms have "first_min rms_list a h p" by simp
  with p show ?thesis by blast
qed

lemma commit_cut_short:
  assumes "0 \<le> ss" "ss < i" "i < int (length rms_list)" "i - ss \<le> max_sil_kept sl"
  shows "\<exists>pos. first_min rms_list ss i pos \<and>
           commit_cut sl rms_list ss i st =
             Inr (st \<lparr> silence_start := None, clip_start := pos,
                       sil_tags := sil_tags st @ [if ss = 0 then (0, pos) else (pos, pos)] \<rparr>)"
proof -
  from assms obtain pos where "argmin_at rms_list ss (i + 1) = Inr pos" "first_min rms_list ss i pos"
    using argmin_at_ex [of ss i rms_list] by auto
  then show ?thesis using assms(4) by (auto simp: commit_cut_def ebind_def Let_def)
qed

lemma commit_cut_medium:
  assumes "0 \<le> ss" "ss < i" "i < int (length rms_list)"
    "max_sil_kept sl < i - ss" "i - ss \<le> max_sil_kept sl * 2"
  shows "\<exists>pos pos_l pos_r.
           first_min rms_list (i - max_sil_kept sl) (ss + max_sil_kept sl) pos \<and>
           first_min rms_list ss (ss + max_sil_kept sl) pos_l \<and>
           first_min rms_list (i - max_sil_kept sl) i pos_r \<and>
           commit_cut sl rms_list ss i st =
             Inr (if ss = 0
                  then st \<lparr> silence_start := None, clip_start := pos_r,
                            sil_tags := sil_tags st @ [(0, pos_r)] \<rparr>
                  else st \<lparr> silence_start := None, clip_start := max pos_r pos,
                            sil_tags := sil_tags st @ [(min pos_l pos, max pos_r pos)] \<rparr>)"
proof -
  let ?m = "max_sil_kept sl"
  have m0: "0 \<le> ?m" using assms by linarith
  obtain pos where pos: "argmin_at rms_list (i - ?m) (ss + ?m + 1) = Inr pos"
      "first_min rms_list (i - ?m) (ss + ?m) pos"
    using argmin_at_ex [of "i - ?m" "ss + ?m" rms_list] assms m0 by auto
  obtain pos_l where pos_l: "argmin_at rms_list ss (ss + ?m + 1) = Inr pos_l"
      "first_min rms_list ss (ss + ?m) pos_l"
    using argmin_at_ex [of ss "ss + ?m" rms_list] assms m0 by auto
  obtain pos_r where pos_r: "argmin_at rms_list (i - ?m) (i + 1) = Inr pos_r"
      "first_min rms_list (i - ?m) i pos_r"
    using argmin_at_ex [of "i - ?m" i rms_list] assms m0 by auto
  have "commit_cut sl rms_list ss i st =
             Inr (if ss = 0
                  then st \<lparr> silence_start := None, clip_start := pos_r,
                            sil_tags := sil_tags st @ [(0, pos_r)] \<rparr>
                  else st \<lparr> silence_start := None, clip_start := max pos_r pos,
                            sil_tags := sil_tags st @ [(min pos_l pos, max pos_r pos)] \<rparr>)"
    using assms(4,5) pos(1) pos_l(1) pos_r(1) by (simp add: commit_cut_def ebind_def Let_def)
  with pos(2) pos_l(2) pos_r(2) show ?thesis by blast
qed

lemma commit_cut_long:
  assumes "0 \<le> ss" "ss < i" "i < int (length rms_list)"
    "0 \<le> max_sil_kept sl" "max_sil_kept sl * 2 < i - ss"
  shows "\<exists>pos_l pos_r.
           first_min rms_list ss (ss + max_sil_kept sl) pos_l \<and>
           first_min rms_list (i - max_sil_kept sl) i pos_r \<and>
           commit_cut sl rms_list ss i st =
             Inr (st \<lparr> silence_start := None, clip_start := pos_r,
                       sil_tags := sil_tags st @ [if ss = 0 then (0, pos_r) else (pos_l, pos_r)] \<rparr>)"
proof -
  let ?m = "max_sil_kept sl"
  obtain pos_l where pos_l: "argmin_at rms_list ss (ss + ?m + 1) = Inr pos_l"
      "first_min rms_list ss (ss + ?m) pos_l"
    using argmin_at_ex [of ss "ss + ?m" rms_list] assms by auto
  obtain pos_r where pos_r: "argmin_at rms_list (i - ?m) (i + 1) = Inr pos_r"
      "first_min rms_list (i - ?m) i pos_r"
    using argmin_at_ex [of "i - ?m" i rms_list] assms by auto
  have "commit_cut sl rms_list ss i st =
             Inr (st \<lparr> silence_start := None, clip_start := pos_r,
                       sil_tags := sil_tags st @ [if ss = 0 then (0, pos_r) else (pos_l, pos_r)] \<rparr>)"
    using assms(4,5) pos_l(1) pos_r(1) by (simp add: commit_cut_def ebind_def Let_def)
  with pos_l(2) pos_r(2) show ?thesis by blast
qed

text \<open>Whatever the branch, a commit appends one range inside the run.\<close>

lemma commit_cut_range:
  assumes "0 \<le> ss" "ss < i" "i < int (length rms_list)" "0 \<le> max_sil_kept sl"
  shows "\<exists>lo hi. ss \<le> lo \<and> lo \<le> hi \<and> hi \<le> i \<and> (ss = 0 \<longrightarrow> lo = 0) \<and>
           commit_cut sl rms_list ss i st =
             Inr (st \<lparr> silence_start := None, clip_start := hi,
                       sil_tags := sil_tags st @ [(lo, hi)] \<rparr>)"
proof -
  let ?m = "max_sil_kept sl"
  consider (short) "i - ss \<le> ?m" | (medium) "?m < i - ss" "i - ss \<le> ?m * 2" | (long) "?m * 2 < i - ss"
    by linarith
  then show ?thesis
  proof cases
    case short
    from commit_cut_short [OF assms(1-3) short, of st] obtain pos where
      "first_min rms_list ss i pos"
      "commit_cut sl rms_list ss i st =
             Inr (st \<lparr> silence_start := None, clip_start := pos,
                       sil_tags := sil_tags st @ [if ss = 0 then (0, pos) else (pos, pos)] \<rparr>)"
      by blast
    then show ?thesis using first_min_bounds [of rms_list ss i pos] assms(1)
      by (intro exI [of _ "if ss = 0 then 0 else pos"] exI [of _ pos]) simp
  next
    case medium
    from commit_cut_medium [OF assms(1-3) medium, of st] obtain pos pos_l pos_r where
      f: "first_min rms_list (i - ?m) (ss + ?m) pos" "first_min rms_list ss (ss + ?m) pos_l"
         "first_min rms_list (i - ?m) i pos_r"
      and c: "commit_cut sl rms_list ss i st =
             Inr (if ss = 0
                  then st \<lparr> silence_start := None, clip_start := pos_r,
                            sil_tags := sil_tags st @ [(0, pos_r)] \<rparr>
                  else st \<lparr> silence_start := None, clip_start := max pos_r pos,
                            sil_tags := sil_tags st @ [(min pos_l pos, max pos_r pos)] \<rparr>)"
      by blast
    from f have b: "i - ?m \<le> pos" "pos \<le> ss + ?m" "ss \<le> pos_l" "pos_l \<le> ss + ?m"
      "i - ?m \<le> pos_r" "pos_r \<le> i"
      using first_min_bounds by blast+
    show ?thesis
    proof (cases "ss = 0")
      case True
      have "0 \<le> pos_r" using b medium True by linarith
      then show ?thesis using c True b
        by (intro exI [of _ 0] exI [of _ pos_r]) simp
    next
      case False
      have "ss \<le> min pos_l pos" "min pos_l pos \<le> max pos_r pos" "max pos_r pos \<le> i"
        using b medium assms by auto
      with c False show ?thesis
        by (intro exI [of _ "min pos_l pos"] exI [of _ "max pos_r pos"]) simp
    qed
  next
    case long
    from commit_cut_long [OF assms(1-4) long, of st] obtain pos_l pos_r where
      f: "first_min rms_list ss (ss + ?m) pos_l" "first_min rms_list (i - ?m) i pos_r"
      and c: "commit_cut sl rms_list ss i st =
             Inr (st \<lparr> silence_start := None, clip_start := pos_r,
                       sil_tags := sil_tags st @ [if ss = 0 then (0, pos_r) else (pos_l, pos_r)] \<rparr>)"
      by blast
    from f have b: "ss \<le> pos_l" "pos_l \<le> ss + ?m" "i - ?m \<le> pos_r" "pos_r \<le> i"
      using first_min_bounds by blast+
    with c long assms show ?thesis
      by (intro exI [of _ "if ss = 0 then 0 else pos_l"] exI [of _ pos_r]) simp
  qed
qed

subsection \<open>The invariant of the scan\<close>

lemma tags_within_mono: "tags_within b tags \<Longrightarrow> b \<le> c \<Longrightarrow> tags_within c tags"
  by (fastforce simp: tags_within_def)

lemma tags_append:
  assumes "tags_sorted tags" "tags_within ss tags" "ss \<le> lo" "lo \<le> hi" "hi < bnd" "0 \<le> ss"
  shows "tags_sorted (tags @ [(lo, hi)]) \<and> tags_within bnd (tags @ [(lo, hi)])"
  using assms by (fastforce simp: tags_sorted_def tags_within_def sorted_wrt_append)

lemma scan_body_inv:
  assumes "scan_inv i st" "0 \<le> i" "i < int (length rms_list)" "0 \<le> max_sil_kept sl"
  shows "\<exists>st'. scan_body sl rms_list i rms st = Inr st' \<and> scan_inv (i + 1) st'"
proof (cases "silence_start st")
  case None
  with assms(1) have t: "tags_sorted (sil_tags st)" "tags_within i (sil_tags st)"
    by (simp_all add: scan_inv_def)
  from t(2) have "tags_within (i + 1) (sil_tags st)" by (rule tags_within_mono) simp
  with None t assms(2) show ?thesis
    by (simp add: scan_body_def scan_inv_def)
next
  case (Some ss)
  with assms(1) have t: "tags_sorted (sil_tags st)" "tags_within ss (sil_tags st)" "0 \<le> ss" "ss < i"
    by (simp_all add: scan_inv_def)
  show ?thesis
  proof (cases "rms < threshold sl")
    case True
    with Some t show ?thesis by (simp add: scan_body_def scan_inv_def)
  next
    case voiced: False
    show ?thesis
    proof (cases "\<not> is_leading_silence sl ss i \<and> \<not> need_slice_middle sl ss (clip_start st) i")
      case True
      from t(2) have "tags_within (i + 1) (sil_tags st)" by (rule tags_within_mono) (use t in simp)
      with True voiced Some t show ?thesis by (simp add: scan_body_def scan_inv_def)
    next
      case False
      from commit_cut_range [OF t(3,4) assms(3,4), of st] obtain lo hi where
        b: "ss \<le> lo" "lo \<le> hi" "hi \<le> i"
        and c: "commit_cut sl rms_list ss i st =
             Inr (st \<lparr> silence_start := None, clip_start := hi,
                       sil_tags := sil_tags st @ [(lo, hi)] \<rparr>)"
        by blast
      have "hi < i + 1" using b by simp
      from tags_append [OF t(1,2) b(1,2) this t(3)]
      have "scan_inv (i + 1) (st \<lparr> silence_start := None, clip_start := hi,
                       sil_tags := sil_tags st @ [(lo, hi)] \<rparr>)"
        by (simp add: scan_inv_def)
      moreover have "scan_body sl rms_list i rms st = commit_cut sl rms_list ss i st"
        using False voiced Some by (auto simp: scan_body_def)
      ultimately show ?thesis using c by simp
    qed
  qed
qed

lemma scan_loop_inv:
  assumes "scan_inv i st" "0 \<le> i" "i + int (length rest) \<le> int (length rms_list)"
    "0 \<le> max_sil_kept sl"
  shows "\<exists>st'. scan_loop sl rms_list i rest st = Inr st' \<and> scan_inv (i + int (length rest)) st'"
  using assms
proof (induction rest arbitrary: i st)
  case Nil
  then show ?case by simp
next
  case (Cons rms rest)
  have "i < int (length rms_list)" using Cons.prems(3) by simp
  from scan_body_inv [OF Cons.prems(1,2) this Cons.prems(4)] obtain st1 where
    s1: "scan_body sl rms_list i rms st = Inr st1" "scan_inv (i + 1) st1" by blast
  have "0 \<le> i + 1" "i + 1 + int (length rest) \<le> int (length rms_list)"
    using Cons.prems by simp_all
  from Cons.IH [OF s1(2) this Cons.prems(4)] obtain st' where
    s2: "scan_loop sl rms_list (i + 1) rest st1 = Inr st'" "scan_inv (i + 1 + int (length rest)) st'"
    by blast
  have "i + 1 + int (length rest) = i + int (length (rms # rest))" by simp
  with s2(2) have "scan_inv (i + int (length (rms # rest))) st'" by simp
  moreover have "scan_loop sl rms_list i (rms # rest) st = Inr st'"
    using s1(1) s2(1) by (simp add: ebind_def)
  ultimately show ?case by blast
qed

lemma init_inv: "scan_inv 0 init_state"
  by (simp add: scan_inv_def init_state_def tags_sorted_def tags_within_def)

lemma scan_total:
  assumes "0 \<le> max_sil_kept sl"
  shows "\<exists>st. scan_loop sl rms_list 0 rms_list init_state = Inr st \<and>
              scan_inv (int (length rms_list)) st"
  using scan_loop_inv [OF init_inv, of rms_list rms_list sl] assms by simp

lemma trailing_cases:
  assumes "scan_inv (int (length rms_list)) st" "0 \<le> max_sil_kept sl"
  shows "(case silence_start st of
            None \<Rightarrow> trailing sl rms_list st = Inr (sil_tags st)
          | Some ss \<Rightarrow>
              if int (length rms_list) - ss \<ge> min_interval sl
              then \<exists>pos. first_min rms_list ss (min (int (length rms_list)) (ss + max_sil_kept sl)) pos \<and>
                     trailing sl rms_list st = Inr (sil_tags st @ [(pos, int (length rms_list) + 1)])
              else trailing sl rms_list st = Inr (sil_tags st))"
proof (cases "silence_start st")
  case None
  then show ?thesis by (simp add: trailing_def)
next
  case (Some ss)
  let ?n = "int (length rms_list)"
  from Some assms(1) have t: "0 \<le> ss" "ss < ?n" by (simp_all add: scan_inv_def)
  show ?thesis
  proof (cases "?n - ss \<ge> min_interval sl")
    case True
    have "ss \<le> min ?n (ss + max_sil_kept sl)" using t assms(2) by simp
    from argmin_at_ex [OF t(1) this t(2)] obtain pos where
      "argmin_at rms_list ss (min ?n (ss + max_sil_kept sl) + 1) = Inr pos"
      "first_min rms_list ss (min ?n (ss + max_sil_kept sl)) pos" by blast
    with Some True show ?thesis by (auto simp: trailing_def Let_def ebind_def)
  next
    case False
    with Some show ?thesis by (simp add: trailing_def)
  qed
qed

lemma trailing_inv:
  assumes "scan_inv (int (length rms_list)) st" "0 \<le> max_sil_kept sl"
  shows "\<exists>tags. trailing sl rms_list st = Inr tags \<and> tags_sorted tags \<and>
           tags_within (int (length rms_list) + 2) tags"
proof -
  let ?n = "int (length rms_list)"
  have s: "tags_sorted (sil_tags st)" using assms(1) by (simp add: scan_inv_def)
  have w: "tags_within (?n + 2) (sil_tags st)"
    using assms(1) by (auto simp: scan_inv_def split: option.splits intro: tags_within_mono)
  show ?thesis
  proof (cases "silence_start st")
    case None
    with s w show ?thesis by (simp add: trailing_def)
  next
    case (Some ss)
    from Some assms(1) have t: "0 \<le> ss" "ss < ?n" "tags_within ss (sil_tags st)"
      by (simp_all add: scan_inv_def)
    show ?thesis
    proof (cases "?n - ss \<ge> min_interval sl")
      case True
      with trailing_cases [OF assms] Some obtain pos where
        p: "first_min rms_list ss (min ?n (ss + max_sil_kept sl)) pos"
           "trailing sl rms_list st = Inr (sil_tags st @ [(pos, ?n + 1)])" by auto
      from first_min_bounds [OF p(1)] have "ss \<le> pos" "pos \<le> ?n + 1" by simp_all
      from tags_append [OF s t(3) this _ t(1), of "?n + 2"] p(2) show ?thesis by simp
    next
      case False
      with Some s w show ?thesis by (simp add: trailing_def)
    qed
  qed
qed

lemma cut_ranges_total:
  assumes "0 \<le> max_sil_kept sl"
  shows "\<exists>tags. cut_ranges sl rms_list = Inr tags \<and> tags_sorted tags \<and>
           tags_within (int (length rms_list) + 2) tags"
proof -
  from scan_total [OF assms, of rms_list] obtain st where
    st: "scan_loop sl rms_list 0 rms_list init_state = Inr st" "scan_inv (int (length rms_list)) st"
    by blast
  from trailing_inv [OF st(2) assms] st(1) show ?thesis
    by (simp add: cut_ranges_def ebind_def)
qed

subsection \<open>The cut ranges in order\<close>

lemma scan_inv_starts:
  assumes "scan_inv n st"
  shows "tags_within n (sil_tags st)"
  using assms by (auto simp: scan_inv_def split: option.splits intro: tags_within_mono)

lemma trailing_starts:
  assumes "scan_inv (int (length rms_list)) st" "0 \<le> max_sil_kept sl"
    "trailing sl rms_list st = Inr tags"
  shows "\<forall>t \<in> set tags. fst t < int (length rms_list)"
proof -
  let ?n = "int (length rms_list)"
  have w: "\<forall>t \<in> set (sil_tags st). fst t < ?n"
    using scan_inv_starts [OF assms(1)] by (fastforce simp: tags_within_def)
  show ?thesis
  proof (cases "silence_start st")
    case None
    with assms(3) w show ?thesis by (simp add: trailing_def)
  next
    case (Some ss)
    show ?thesis
    proof (cases "?n - ss \<ge> min_interval sl")
      case True
      with trailing_cases [OF assms(1,2)] Some obtain pos where
        p: "first_min rms_list ss (min ?n (ss + max_sil_kept sl)) pos"
           "trailing sl rms_list st = Inr (sil_tags st @ [(pos, ?n + 1)])" by auto
      from first_min_bounds [OF p(1)] have "pos < ?n" by simp
      with p(2) assms(3) w show ?thesis by auto
    next
      case False
      with Some assms(3) w show ?thesis by (simp add: trailing_def)
    qed
  qed
qed

lemma cut_ranges_starts:
  assumes "0 \<le> max_sil_kept sl" "cut_ranges sl rms_list = Inr tags"
  shows "\<forall>t \<in> set tags. fst t < int (length rms_list)"
proof -
  from scan_total [OF assms(1), of rms_list] obtain st where
    st: "scan_loop sl rms_list 0 rms_list init_state = Inr st" "scan_inv (int (length rms_list)) st"
    by blast
  from st(1) assms(2) have "trailing sl rms_list st = Inr tags"
    by (simp add: cut_ranges_def ebind_def)
  from trailing_starts [OF st(2) assms(1) this] show ?thesis .
qed

lemma tags_nth_bounds:
  assumes "tags_within b tags" "i < length tags"
  shows "0 \<le> fst (tags ! i)" "fst (tags ! i) \<le> snd (tags ! i)" "snd (tags ! i) < b"
  using assms by (auto simp: tags_within_def)

lemma tags_nth_less:
  assumes "tags_sorted tags" "i < j" "j < length tags"
  shows "snd (tags ! i) < fst (tags ! j)"
  using assms by (simp add: tags_sorted_def sorted_wrt_iff_nth_less)

lemma tags_snd_mono:
  assumes "tags_sorted tags" "tags_within b tags" "i \<le> j" "j < length tags"
  shows "snd (tags ! i) \<le> snd (tags ! j)"
proof (cases "i = j")
  case True
  then show ?thesis by simp
next
  case False
  with assms(3) have "i < j" by simp
  from tags_nth_less [OF assms(1) this assms(4)] tags_nth_bounds(2) [OF assms(2,4)]
  show ?thesis by simp
qed

lemma sorted_wrt_pieces:
  assumes "\<And>i j. i < j \<Longrightarrow> j < k \<Longrightarrow> R (f i) (f j)"
    "\<And>j. p \<Longrightarrow> j < k \<Longrightarrow> R a (f j)"
    "\<And>i. q \<Longrightarrow> i < k \<Longrightarrow> R (f i) c"
    "p \<Longrightarrow> q \<Longrightarrow> R a c"
  shows "sorted_wrt R ((if p then [a] else []) @ map f [0 ..< k] @ (if q then [c] else []))"
proof -
  have "sorted_wrt R (map f [0 ..< k])"
    using assms(1) by (simp add: sorted_wrt_iff_nth_less)
  then show ?thesis
    using assms(2,3,4) by (auto simp: sorted_wrt_append)
qed

subsection \<open>The chunks of a list of cut ranges\<close>

lemma make_chunks_ordered:
  assumes "tags_sorted tags" "tags_within b tags" "0 < hop_size sl"
  shows "sorted_wrt (\<lambda>x y. chunk_start x < chunk_start y) (make_chunks sl w n tags) \<and>
         sorted_wrt (\<lambda>x y. chunk_end x < chunk_end y) (make_chunks sl w n tags) \<and>
         sorted_wrt (\<lambda>x y. chunk_end x \<le> chunk_start y) (make_chunks sl w n tags)"
proof (cases "tags = []")
  case True
  then show ?thesis by (simp add: make_chunks_def)
next
  case False
  let ?h = "hop_size sl"
  let ?k = "length tags - 1"
  let ?f = "\<lambda>i. Triple (apply_slice sl w (snd (tags ! i)) (fst (tags ! (i + 1))))
                          (snd (tags ! i) * ?h) (fst (tags ! (i + 1)) * ?h)"
  let ?a = "Triple (apply_slice sl w 0 (fst (tags ! 0))) 0 (fst (tags ! 0) * ?h)"
  let ?c = "Triple (apply_slice sl w (snd (last tags)) n) (snd (last tags) * ?h) (n * ?h)"
  let ?p = "fst (tags ! 0) > 0"
  let ?q = "snd (last tags) < n"
  from False have len: "0 < length tags" by simp
  have lst: "last tags = tags ! ?k" using False by (simp add: last_conv_nth)
  have mc: "make_chunks sl w n tags =
      (if ?p then [?a] else []) @ map ?f [0 ..< ?k] @ (if ?q then [?c] else [])"
    using False by (simp add: make_chunks_def)
  have lohi: "fst (tags ! i) \<le> snd (tags ! i)" if "i < length tags" for i
    using tags_nth_bounds(2) [OF assms(2) that] .
  have lt: "snd (tags ! i) < fst (tags ! j)" if "i < j" "j < length tags" for i j
    using tags_nth_less [OF assms(1) that] .
  have mono: "snd (tags ! i) \<le> snd (tags ! j)" if "i \<le> j" "j < length tags" for i j
    using tags_snd_mono [OF assms(1,2) that] .
  have up: "x * ?h < y * ?h" if "x < y" for x y :: int
    using that assms(3) by simp
  have upe: "x * ?h \<le> y * ?h" if "x \<le> y" for x y :: int
    using that assms(3) by simp
  have kk: "j < length tags" "j + 1 < length tags" "j \<le> ?k" "j + 1 \<le> ?k" if "j < ?k" for j
    using that by simp_all
  have klen: "?k < length tags" "0 \<le> ?k" using len by simp_all
  have s1: "sorted_wrt (\<lambda>x y. chunk_start x < chunk_start y)
      ((if ?p then [?a] else []) @ map ?f [0 ..< ?k] @ (if ?q then [?c] else []))"
  proof (rule sorted_wrt_pieces)
    fix i j assume a: "i < j" "j < ?k"
    have "snd (tags ! i) < snd (tags ! j)"
      using lt [OF a(1) kk(1) [OF a(2)]] lohi [OF kk(1) [OF a(2)]] by linarith
    then show "chunk_start (?f i) < chunk_start (?f j)" using up by simp
  next
    fix j assume a: "?p" "j < ?k"
    have "0 < snd (tags ! j)"
      using a(1) lohi [OF len] mono [OF _ kk(1) [OF a(2)], of 0] by simp
    then show "chunk_start ?a < chunk_start (?f j)" using up [of 0] by simp
  next
    fix i assume a: "?q" "i < ?k"
    have "snd (tags ! i) < snd (last tags)"
      using lt [OF a(2) klen(1)] lohi [OF klen(1)] lst by simp
    then show "chunk_start (?f i) < chunk_start ?c" using up by simp
  next
    assume a: "?p" "?q"
    have "0 < snd (last tags)"
      using a(1) lohi [OF len] mono [OF klen(2) klen(1)] lst by simp
    then show "chunk_start ?a < chunk_start ?c" using up [of 0] by simp
  qed
  have s2: "sorted_wrt (\<lambda>x y. chunk_end x < chunk_end y)
      ((if ?p then [?a] else []) @ map ?f [0 ..< ?k] @ (if ?q then [?c] else []))"
  proof (rule sorted_wrt_pieces)
    fix i j assume a: "i < j" "j < ?k"
    then have b: "i + 1 < j + 1" "i + 1 < length tags" by simp_all
    from lt [OF b(1) kk(2) [OF a(2)]] lohi [OF b(2)]
    have "fst (tags ! (i + 1)) < fst (tags ! (j + 1))" by linarith
    then show "chunk_end (?f i) < chunk_end (?f j)" using up by simp
  next
    fix j assume a: "?p" "j < ?k"
    have "fst (tags ! 0) < fst (tags ! (j + 1))"
      using lt [OF _ kk(2) [OF a(2)], of 0] lohi [OF len] by simp
    then show "chunk_end ?a < chunk_end (?f j)" using up by simp
  next
    fix i assume a: "?q" "i < ?k"
    have "fst (tags ! (i + 1)) < n"
      using a(1) lohi [OF kk(2) [OF a(2)]] mono [OF kk(4) [OF a(2)] klen(1)] lst by simp
    then show "chunk_end (?f i) < chunk_end ?c" using up by simp
  next
    assume a: "?p" "?q"
    have "fst (tags ! 0) < n"
      using a(2) lohi [OF len] mono [OF klen(2) klen(1)] lst by simp
    then show "chunk_end ?a < chunk_end ?c" using up by simp
  qed
  have s3: "sorted_wrt (\<lambda>x y. chunk_end x \<le> chunk_start y)
      ((if ?p then [?a] else []) @ map ?f [0 ..< ?k] @ (if ?q then [?c] else []))"
  proof (rule sorted_wrt_pieces)
    fix i j assume a: "i < j" "j < ?k"
    then have b: "i + 1 \<le> j" "i + 1 < length tags" by simp_all
    have "fst (tags ! (i + 1)) \<le> snd (tags ! j)"
      using lohi [OF b(2)] mono [OF b(1) kk(1) [OF a(2)]] by simp
    then show "chunk_end (?f i) \<le> chunk_start (?f j)" using upe by simp
  next
    fix j assume a: "?p" "j < ?k"
    have "fst (tags ! 0) \<le> snd (tags ! j)"
      using lohi [OF len] mono [OF _ kk(1) [OF a(2)], of 0] by simp
    then show "chunk_end ?a \<le> chunk_start (?f j)" using upe by simp
  next
    fix i assume a: "?q" "i < ?k"
    have "fst (tags ! (i + 1)) \<le> snd (last tags)"
      using lohi [OF kk(2) [OF a(2)]] mono [OF kk(4) [OF a(2)] klen(1)] lst by simp
    then show "chunk_end (?f i) \<le> chunk_start ?c" using upe by simp
  next
    assume a: "?p" "?q"
    have "fst (tags ! 0) \<le> snd (last tags)"
      using lohi [OF len] mono [OF klen(2) klen(1)] lst by simp
    then show "chunk_end ?a \<le> chunk_start ?c" using upe by simp
  qed
  from s1 s2 s3 show ?thesis unfolding mc by blast
qed

lemma make_chunks_frames:
  assumes "tags_sorted tags" "tags_within b0 tags" "\<forall>t \<in> set tags. fst t < n" "0 \<le> n"
    "Triple c s e \<in> set (make_chunks sl w n tags)"
  shows "\<exists>b en. 0 \<le> b \<and> b \<le> en \<and> en \<le> n \<and> s = b * hop_size sl \<and> e = en * hop_size sl \<and>
           (c = apply_slice sl w b en \<or> (c = w \<and> b = 0 \<and> en = n))"
proof (cases "tags = []")
  case True
  with assms(5) have "c = w" "s = 0" "e = n * hop_size sl" by (simp_all add: make_chunks_def)
  with assms(4) show ?thesis by (intro exI [of _ 0] exI [of _ n]) simp
next
  case False
  let ?h = "hop_size sl"
  let ?k = "length tags - 1"
  from False have len: "0 < length tags" by simp
  have lst: "last tags = tags ! ?k" using False by (simp add: last_conv_nth)
  have klen: "?k < length tags" using len by simp
  have lo0: "0 \<le> fst (tags ! i)" and lohi: "fst (tags ! i) \<le> snd (tags ! i)"
    and lon: "fst (tags ! i) < n" if "i < length tags" for i
    using tags_nth_bounds(1,2) [OF assms(2) that] assms(3) that by simp_all
  from assms(5) False consider
      (first) "fst (tags ! 0) > 0" "c = apply_slice sl w 0 (fst (tags ! 0))" "s = 0"
        "e = fst (tags ! 0) * ?h"
    | (middle) i where "i < ?k" "c = apply_slice sl w (snd (tags ! i)) (fst (tags ! (i + 1)))"
        "s = snd (tags ! i) * ?h" "e = fst (tags ! (i + 1)) * ?h"
    | (final) "snd (last tags) < n" "c = apply_slice sl w (snd (last tags)) n"
        "s = snd (last tags) * ?h" "e = n * ?h"
    by (auto simp: make_chunks_def split: if_splits)
  then show ?thesis
  proof cases
    case first
    with lon [OF len] show ?thesis
      by (intro exI [of _ 0] exI [of _ "fst (tags ! 0)"]) simp
  next
    case middle
    then have i: "i < length tags" "i + 1 < length tags" "i < i + 1" by simp_all
    have "0 \<le> snd (tags ! i)" using lo0 [OF i(1)] lohi [OF i(1)] by simp
    moreover have "snd (tags ! i) \<le> fst (tags ! (i + 1))"
      using tags_nth_less [OF assms(1) i(3) i(2)] by simp
    moreover have "fst (tags ! (i + 1)) \<le> n" using lon [OF i(2)] by simp
    ultimately show ?thesis using middle
      by (intro exI [of _ "snd (tags ! i)"] exI [of _ "fst (tags ! (i + 1))"]) simp
  next
    case final
    have "0 \<le> snd (last tags)" using lo0 [OF klen] lohi [OF klen] lst by simp
    with final show ?thesis
      by (intro exI [of _ "snd (last tags)"] exI [of _ n]) simp
  qed
qed

section \<open>Concrete runs\<close>

lemmas run_defs = slice_def mono_samples_def fixed_envelope_def ebind_def cut_ranges_def init_state_def
  scan_body_def commit_cut_def is_leading_silence_def need_slice_middle_def argmin_at_def argmin_def
  py_slice_def trailing_def make_chunks_def apply_slice_def num_samples_def Let_def

lemmas init_defs = Slicer_init_def py_round_def Let_def

section \<open>The claims\<close>

text \<open>
  C3. At a voiced frame \<open>i\<close> that closes the silence run \<open>[silence_start, i)\<close>, one
  iteration of the scan records a cut only if the run is leading silence or both
  \<open>i - silence_start \<ge> min_interval\<close> and \<open>i - clip_start \<ge> min_length\<close> hold for the
  state the iteration starts in; no other iteration records a cut. A run that is neither
  leading silence nor qualifies in the middle is dropped: \<open>silence_start\<close> is reset, no
  cut is recorded and \<open>clip_start\<close> keeps its value.
\<close>

theorem scan_mid_cut_gate:
  assumes "scan_body sl rms_list i rms st = Inr st'"
  shows "(sil_tags st' \<noteq> sil_tags st \<longrightarrow>
            (\<exists>ss. silence_start st = Some ss \<and> \<not> rms < threshold sl \<and>
                  ((ss = 0 \<and> i > max_sil_kept sl) \<or>
                   (i - ss \<ge> min_interval sl \<and> i - clip_start st \<ge> min_length sl)))) \<and>
         (\<forall>ss. silence_start st = Some ss \<and> \<not> rms < threshold sl \<and>
               \<not> (ss = 0 \<and> i > max_sil_kept sl) \<and>
               \<not> (i - ss \<ge> min_interval sl \<and> i - clip_start st \<ge> min_length sl) \<longrightarrow>
               silence_start st' = None \<and> sil_tags st' = sil_tags st \<and> clip_start st' = clip_start st)"
  using assms
  by (auto simp: scan_body_def is_leading_silence_def need_slice_middle_def
           split: if_splits option.splits)

theorem scan_mid_cut_gate_witness:
  "scan_body \<lparr>threshold = 1, hop_size = 2, win_size = 2, min_length = 4, min_interval = 1, max_sil_kept = 1\<rparr>
      [1, 1, 1, 0, 1] 4 1 \<lparr>silence_start = Some 3, clip_start = 0, sil_tags = []\<rparr>
     = Inr \<lparr>silence_start = None, clip_start = 3, sil_tags = [(3, 3)]\<rparr> \<and>
   (4::int) - 3 \<ge> 1 \<and> (4::int) - 0 \<ge> 4 \<and>
   scan_body \<lparr>threshold = 1, hop_size = 2, win_size = 2, min_length = 4, min_interval = 1, max_sil_kept = 1\<rparr>
      [1, 0, 1, 1, 1] 2 1 \<lparr>silence_start = Some 1, clip_start = 0, sil_tags = []\<rparr>
     = Inr \<lparr>silence_start = None, clip_start = 0, sil_tags = []\<rparr>"
  using scan_mid_cut_gate [of "\<lparr>threshold = 1, hop_size = 2, win_size = 2, min_length = 4, min_interval = 1, max_sil_kept = 1\<rparr>"
      "[1, 1, 1, 0, 1]" 4 1 "\<lparr>silence_start = Some 3, clip_start = 0, sil_tags = []\<rparr>"
      "\<lparr>silence_start = None, clip_start = 3, sil_tags = [(3, 3)]\<rparr>"]
  by (simp add: run_defs)

text \<open>
  C5. A silence run that starts at frame 0 and is closed by the voiced frame \<open>i\<close> is
  leading silence exactly when \<open>i > max_sil_kept\<close>. For \<open>i \<le> max_sil_kept\<close> (so for
  \<open>i = max_sil_kept\<close>) the leading test does not commit a cut: the iteration cuts only if
  the mid-stream test holds and drops the run otherwise. For \<open>i > max_sil_kept\<close> (so for
  \<open>i = max_sil_kept + 1\<close>) the iteration commits a cut range that starts at frame 0.
\<close>

theorem leading_silence_boundary:
  assumes "silence_start st = Some 0" "\<not> rms < threshold sl"
    "0 \<le> max_sil_kept sl" "0 < i" "i < int (length rms_list)"
  shows "(is_leading_silence sl 0 i \<longleftrightarrow> i > max_sil_kept sl) \<and>
         (i \<le> max_sil_kept sl \<longrightarrow>
            scan_body sl rms_list i rms st =
              (if i \<ge> min_interval sl \<and> i - clip_start st \<ge> min_length sl
               then commit_cut sl rms_list 0 i st
               else Inr (st \<lparr> silence_start := None \<rparr>))) \<and>
         (i > max_sil_kept sl \<longrightarrow>
            (\<exists>hi. 0 \<le> hi \<and> hi \<le> i \<and>
               scan_body sl rms_list i rms st =
                 Inr (st \<lparr> silence_start := None, clip_start := hi,
                           sil_tags := sil_tags st @ [(0, hi)] \<rparr>)))"
proof (intro conjI impI)
  show "is_leading_silence sl 0 i \<longleftrightarrow> i > max_sil_kept sl"
    by (simp add: is_leading_silence_def)
next
  assume "i \<le> max_sil_kept sl"
  then show "scan_body sl rms_list i rms st =
              (if i \<ge> min_interval sl \<and> i - clip_start st \<ge> min_length sl
               then commit_cut sl rms_list 0 i st
               else Inr (st \<lparr> silence_start := None \<rparr>))"
    using assms(1,2) by (simp add: scan_body_def is_leading_silence_def need_slice_middle_def)
next
  assume lead: "i > max_sil_kept sl"
  have z: "(0::int) \<le> 0" by simp
  from commit_cut_range [OF z assms(4,5,3), of st] obtain lo hi where
    b: "0 \<le> lo" "lo \<le> hi" "hi \<le> i" "lo = 0"
    and c: "commit_cut sl rms_list 0 i st =
             Inr (st \<lparr> silence_start := None, clip_start := hi,
                       sil_tags := sil_tags st @ [(lo, hi)] \<rparr>)"
    by auto
  have "scan_body sl rms_list i rms st = commit_cut sl rms_list 0 i st"
    using lead assms(1,2) by (simp add: scan_body_def is_leading_silence_def)
  with b c show "\<exists>hi. 0 \<le> hi \<and> hi \<le> i \<and>
               scan_body sl rms_list i rms st =
                 Inr (st \<lparr> silence_start := None, clip_start := hi,
                           sil_tags := sil_tags st @ [(0, hi)] \<rparr>)"
    by (intro exI [of _ hi]) simp
qed

theorem leading_silence_boundary_witness:
  "scan_body \<lparr>threshold = 1, hop_size = 2, win_size = 2, min_length = 9, min_interval = 3, max_sil_kept = 2\<rparr>
      [0, 0, 1, 1] 2 1 \<lparr>silence_start = Some 0, clip_start = 0, sil_tags = []\<rparr>
     = Inr \<lparr>silence_start = None, clip_start = 0, sil_tags = []\<rparr> \<and>
   scan_body \<lparr>threshold = 1, hop_size = 2, win_size = 2, min_length = 9, min_interval = 3, max_sil_kept = 2\<rparr>
      [0, 0, 0, 1] 3 1 \<lparr>silence_start = Some 0, clip_start = 0, sil_tags = []\<rparr>
     = Inr \<lparr>silence_start = None, clip_start = 1, sil_tags = [(0, 1)]\<rparr>"
  using leading_silence_boundary [of "\<lparr>silence_start = Some 0, clip_start = 0, sil_tags = []\<rparr>" 1
      "\<lparr>threshold = 1, hop_size = 2, win_size = 2, min_length = 9, min_interval = 3, max_sil_kept = 2\<rparr>"
      2 "[0, 0, 1, 1]"]
    leading_silence_boundary [of "\<lparr>silence_start = Some 0, clip_start = 0, sil_tags = []\<rparr>" 1
      "\<lparr>threshold = 1, hop_size = 2, win_size = 2, min_length = 9, min_interval = 3, max_sil_kept = 2\<rparr>"
      3 "[0, 0, 0, 1]"]
  by (simp add: run_defs)

text \<open>
  C6. \<open>Slicer.__init__\<close> raises its configuration error (\<open>ValueError\<close>) exactly when
  \<open>min_length \<ge> min_interval \<ge> hop_size\<close> fails or \<open>max_sil_kept \<ge> hop_size\<close> fails, before
  anything else is computed; an error result carries no slicer. When a slicer is built, both
  orderings hold and its fields are the millisecond arguments converted to frame counts by
  the formulas of lines 195 to 201. (A \<open>hop_size\<close> that rounds to zero frames raises
  \<open>ZeroDivisionError\<close>, which is not the configuration error.)
\<close>

theorem Slicer_init_errors:
  "((\<exists>msg. Slicer_init sr threshold_db min_length_ms min_interval_ms hop_size_ms max_sil_kept_ms
             = Inl (ValueError msg)) \<longleftrightarrow>
      \<not> (min_length_ms \<ge> min_interval_ms \<and> min_interval_ms \<ge> hop_size_ms) \<or>
      \<not> (max_sil_kept_ms \<ge> hop_size_ms)) \<and>
   (\<forall>sl. Slicer_init sr threshold_db min_length_ms min_interval_ms hop_size_ms max_sil_kept_ms = Inr sl \<longrightarrow>
      min_length_ms \<ge> min_interval_ms \<and> min_interval_ms \<ge> hop_size_ms \<and>
      max_sil_kept_ms \<ge> hop_size_ms \<and>
      hop_size sl = py_round (real_of_int (sr * hop_size_ms) / 1000) \<and>
      win_size sl = min (py_round (real_of_int (sr * min_interval_ms) / 1000)) (4 * hop_size sl) \<and>
      min_length sl = py_round (real_of_int (sr * min_length_ms) / 1000 / real_of_int (hop_size sl)) \<and>
      min_interval sl = py_round (real_of_int (sr * min_interval_ms) / 1000 / real_of_int (hop_size sl)) \<and>
      max_sil_kept sl = py_round (real_of_int (sr * max_sil_kept_ms) / 1000 / real_of_int (hop_size sl)) \<and>
      threshold sl = 10 powr (threshold_db / 20))"
  by (auto simp: Slicer_init_def Let_def split: if_splits)

theorem Slicer_init_errors_witness:
  "Slicer_init 24000 (- 40) 20000 300 20 2000 =
     Inr \<lparr>threshold = 1 / 100, hop_size = 480, win_size = 1920, min_length = 1000,
          min_interval = 15, max_sil_kept = 100\<rparr> \<and>
   Slicer_init 24000 (- 40) 200 300 20 2000 =
     Inl (ValueError ''The following condition must be satisfied: min_length >= min_interval >= hop_size'') \<and>
   Slicer_init 24000 (- 40) 20000 300 20 10 =
     Inl (ValueError ''The following condition must be satisfied: max_sil_kept >= hop_size'')"
  using Slicer_init_errors [of 24000 "- 40" 20000 300 20 2000]
    Slicer_init_errors [of 24000 "- 40" 200 300 20 2000]
    Slicer_init_errors [of 24000 "- 40" 20000 300 20 10]
  by (simp add: init_defs powr_minus powr_numeral)

text \<open>
  C10. When the sample count is at most \<open>min_length\<close>, \<open>slice\<close> returns the one-element
  list that holds the bare waveform, with no offsets; on every other path that returns, each
  element is a triple \<open>[chunk, start, end]\<close>. The caller gets one of two shapes, by the
  length of the input.
\<close>

theorem slice_result_shapes:
  "(int (length (mono_samples w)) \<le> min_length sl \<longrightarrow> slice rms_fn sl w = Inr [Bare w]) \<and>
   (min_length sl < int (length (mono_samples w)) \<longrightarrow>
      (\<forall>chunks. slice rms_fn sl w = Inr chunks \<longrightarrow>
         (\<forall>c \<in> set chunks. \<exists>d s e. c = Triple d s e)))"
  by (auto simp: slice_def make_chunks_def ebind_def Let_def split: sum.splits if_splits)

theorem slice_result_shapes_witness:
  "slice (fixed_envelope [0, 0, 0])
      \<lparr>threshold = 1, hop_size = 2, win_size = 2, min_length = 4, min_interval = 1, max_sil_kept = 1\<rparr>
      (Mono [0, 1, 1, 0]) = Inr [Bare (Mono [0, 1, 1, 0])] \<and>
   slice (fixed_envelope [1, 1, 1, 0, 1])
      \<lparr>threshold = 1, hop_size = 2, win_size = 2, min_length = 4, min_interval = 1, max_sil_kept = 1\<rparr>
      (Mono [1, 1, 1, 1, 1, 1, 0, 0]) =
     Inr [Triple (Mono [1, 1, 1, 1, 1, 1]) 0 6, Triple (Mono [0, 0]) 6 10]"
  using slice_result_shapes [of "Mono [0, 1, 1, 0]"
      "\<lparr>threshold = 1, hop_size = 2, win_size = 2, min_length = 4, min_interval = 1, max_sil_kept = 1\<rparr>"
      "fixed_envelope [0, 0, 0]"]
    slice_result_shapes [of "Mono [1, 1, 1, 1, 1, 1, 0, 0]"
      "\<lparr>threshold = 1, hop_size = 2, win_size = 2, min_length = 4, min_interval = 1, max_sil_kept = 1\<rparr>"
      "fixed_envelope [1, 1, 1, 0, 1]"]
  by (simp add: run_defs)

text \<open>
  C1. The claim: a waveform of at most \<open>min_length * hop_size\<close> samples comes back whole, as
  one segment, and is not scanned. The guard of line 215 compares the sample count with
  \<open>min_length\<close>, which is a number of frames. For \<open>Slicer(1000, 0, 8, 2, 2, 2)\<close>
  (\<open>min_length\<close> 4 frames, \<open>hop_size\<close> 2 samples) a waveform of 6 samples, at most 8, whose four
  frames are silent, silent, voiced, voiced, is scanned: the leading silence is cut and the
  one segment returned is the samples 2 to 6, not the whole input.
\<close>

theorem short_clip_is_scanned:
  "Slicer_init 1000 0 8 2 2 2 =
     Inr \<lparr>threshold = 1, hop_size = 2, win_size = 2, min_length = 4, min_interval = 1, max_sil_kept = 1\<rparr> \<and>
   num_samples (Mono [0, 0, 0, 0, 1, 1]) = 6 \<and>
   slice (fixed_envelope [0, 0, 1, 1])
      \<lparr>threshold = 1, hop_size = 2, win_size = 2, min_length = 4, min_interval = 1, max_sil_kept = 1\<rparr>
      (Mono [0, 0, 0, 0, 1, 1]) = Inr [Triple (Mono [0, 0, 1, 1]) 2 8]"
  by (simp add: run_defs init_defs)

text \<open>
  C2, as stated, fails twice. An empty waveform raises no error: it takes the short path
  and comes back as the one bare element. A waveform of five silent samples, which is not
  empty, gives the empty list: its only cut range is the trailing one, from frame 0 to past
  the last frame.
\<close>

theorem empty_input_and_empty_result:
  "slice (fixed_envelope [])
      \<lparr>threshold = 1, hop_size = 2, win_size = 2, min_length = 4, min_interval = 1, max_sil_kept = 1\<rparr>
      (Mono []) = Inr [Bare (Mono [])] \<and>
   slice (fixed_envelope [0, 0, 0])
      \<lparr>threshold = 1, hop_size = 2, win_size = 2, min_length = 4, min_interval = 1, max_sil_kept = 1\<rparr>
      (Mono [0, 0, 0, 0, 0]) = Inr []"
  by (simp add: run_defs)

text \<open>
  C2, amended. An empty waveform raises no error: with \<open>min_length \<ge> 0\<close> the result is the
  one-element list that holds the waveform. For every waveform, \<open>slice\<close> returns the empty
  list exactly when the input is longer than \<open>min_length\<close>, the envelope was computed and the
  scan committed one single cut range, which starts at frame 0 (or before) and ends at or
  after \<open>total_frames\<close>; in every other case that returns, the result is not empty.
\<close>

theorem slice_empty_iff:
  "(mono_samples w = [] \<and> 0 \<le> min_length sl \<longrightarrow> slice rms_fn sl w = Inr [Bare w]) \<and>
   (slice rms_fn sl w = Inr [] \<longleftrightarrow>
      min_length sl < int (length (mono_samples w)) \<and>
      (\<exists>rms_list lo hi.
         rms_fn (mono_samples w) (win_size sl) (hop_size sl) = Inr rms_list \<and>
         cut_ranges sl rms_list = Inr [(lo, hi)] \<and> lo \<le> 0 \<and> int (length rms_list) \<le> hi))"
proof (intro conjI impI)
  assume "mono_samples w = [] \<and> 0 \<le> min_length sl"
  then show "slice rms_fn sl w = Inr [Bare w]" by (simp add: slice_def)
next
  have one: "make_chunks sl w n tags = [] \<longleftrightarrow> (\<exists>lo hi. tags = [(lo, hi)] \<and> lo \<le> 0 \<and> n \<le> hi)"
    for n tags
  proof (cases tags)
    case Nil
    then show ?thesis by (simp add: make_chunks_def)
  next
    case (Cons t ts)
    show ?thesis
    proof (cases ts)
      case Nil
      with Cons show ?thesis by (cases t) (auto simp: make_chunks_def)
    next
      case (Cons u us)
      with \<open>tags = t # ts\<close> show ?thesis by (simp add: make_chunks_def)
    qed
  qed
  show "slice rms_fn sl w = Inr [] \<longleftrightarrow>
      min_length sl < int (length (mono_samples w)) \<and>
      (\<exists>rms_list lo hi.
         rms_fn (mono_samples w) (win_size sl) (hop_size sl) = Inr rms_list \<and>
         cut_ranges sl rms_list = Inr [(lo, hi)] \<and> lo \<le> 0 \<and> int (length rms_list) \<le> hi)"
    by (auto simp: slice_def ebind_def Let_def one split: sum.splits)
qed

theorem slice_empty_iff_witness:
  "slice (fixed_envelope [])
      \<lparr>threshold = 1, hop_size = 2, win_size = 2, min_length = 4, min_interval = 1, max_sil_kept = 1\<rparr>
      (Mono []) = Inr [Bare (Mono [])] \<and>
   cut_ranges \<lparr>threshold = 1, hop_size = 2, win_size = 2, min_length = 4, min_interval = 1, max_sil_kept = 1\<rparr>
      [0, 0, 0, 0] = Inr [(0, 5)] \<and>
   slice (fixed_envelope [0, 0, 0, 0])
      \<lparr>threshold = 1, hop_size = 2, win_size = 2, min_length = 4, min_interval = 1, max_sil_kept = 1\<rparr>
      (Mono [0, 0, 0, 0, 0, 0]) = Inr []"
  using slice_empty_iff [of "Mono []"
      "\<lparr>threshold = 1, hop_size = 2, win_size = 2, min_length = 4, min_interval = 1, max_sil_kept = 1\<rparr>"
      "fixed_envelope []"]
    slice_empty_iff [of "Mono [0, 0, 0, 0, 0, 0]"
      "\<lparr>threshold = 1, hop_size = 2, win_size = 2, min_length = 4, min_interval = 1, max_sil_kept = 1\<rparr>"
      "fixed_envelope [0, 0, 0, 0]"]
  by (simp add: run_defs)

text \<open>
  C8, as stated, fails: the reported offsets are not clamped. A waveform of 5 samples with
  three voiced frames and \<open>hop_size\<close> 2 is returned as one segment whose reported end is
  \<open>3 * 2 = 6\<close>, beyond the 5 samples.
\<close>

theorem reported_end_beyond_input:
  "num_samples (Mono [1, 1, 1, 1, 1]) = 5 \<and>
   slice (fixed_envelope [1, 1, 1])
      \<lparr>threshold = 1, hop_size = 2, win_size = 2, min_length = 4, min_interval = 1, max_sil_kept = 1\<rparr>
      (Mono [1, 1, 1, 1, 1]) = Inr [Triple (Mono [1, 1, 1, 1, 1]) 0 6]"
  by (simp add: run_defs)

text \<open>
  C8, amended. On the scanning path the offsets a triple reports are frame indices
  \<open>b\<close> and \<open>en\<close> with \<open>0 \<le> b \<le> en \<le> total_frames\<close>, multiplied by \<open>hop_size\<close> and not
  clamped. The clamp to the waveform length is in \<open>_apply_slice\<close> only: the chunk is the
  waveform from \<open>b * hop_size\<close> to \<open>min(length, en * hop_size)\<close>, or the waveform itself
  when no cut was committed.
\<close>

theorem reported_offsets_unclamped:
  assumes "0 \<le> max_sil_kept sl"
    "rms_fn (mono_samples w) (win_size sl) (hop_size sl) = Inr rms_list"
    "slice rms_fn sl w = Inr chunks" "Triple c s e \<in> set chunks"
  shows "\<exists>b en. 0 \<le> b \<and> b \<le> en \<and> en \<le> int (length rms_list) \<and>
           s = b * hop_size sl \<and> e = en * hop_size sl \<and>
           (c = apply_slice sl w b en \<or> (c = w \<and> b = 0 \<and> en = int (length rms_list)))"
proof -
  have long: "\<not> int (length (mono_samples w)) \<le> min_length sl"
    using assms(3,4) by (auto simp: slice_def)
  with assms(2,3) obtain tags where
    t: "cut_ranges sl rms_list = Inr tags"
    and c: "chunks = make_chunks sl w (int (length rms_list)) tags"
    by (auto simp: slice_def ebind_def Let_def split: sum.splits)
  from cut_ranges_total [OF assms(1), of rms_list] t
  have "tags_sorted tags" "tags_within (int (length rms_list) + 2) tags" by simp_all
  from make_chunks_frames [OF this cut_ranges_starts [OF assms(1) t], of c s e sl w] assms(4) c
  show ?thesis by simp
qed

theorem reported_offsets_unclamped_witness:
  "slice (fixed_envelope [1, 1, 1, 0, 1])
      \<lparr>threshold = 1, hop_size = 2, win_size = 2, min_length = 4, min_interval = 1, max_sil_kept = 1\<rparr>
      (Mono [1, 1, 1, 1, 1, 1, 0, 1, 1]) =
     Inr [Triple (Mono [1, 1, 1, 1, 1, 1]) 0 6, Triple (Mono [0, 1, 1]) 6 10] \<and>
   apply_slice \<lparr>threshold = 1, hop_size = 2, win_size = 2, min_length = 4, min_interval = 1, max_sil_kept = 1\<rparr>
      (Mono [1, 1, 1, 1, 1, 1, 0, 1, 1]) 3 5 = Mono [0, 1, 1]"
  using reported_offsets_unclamped [of
      "\<lparr>threshold = 1, hop_size = 2, win_size = 2, min_length = 4, min_interval = 1, max_sil_kept = 1\<rparr>"
      "fixed_envelope [1, 1, 1, 0, 1]" "Mono [1, 1, 1, 1, 1, 1, 0, 1, 1]" "[1, 1, 1, 0, 1]"
      "[Triple (Mono [1, 1, 1, 1, 1, 1]) 0 6, Triple (Mono [0, 1, 1]) 6 10]" "Mono [0, 1, 1]" 6 10]
  by (simp add: run_defs)

text \<open>
  C4. After the scan from the initial state, the trailing step appends a cut exactly when a
  silence run is still open and \<open>total_frames - silence_start \<ge> min_interval\<close>. The range
  appended is \<open>(pos, total_frames + 1)\<close>, where \<open>pos\<close> is the first frame of least energy
  among the existing frames from \<open>silence_start\<close> to
  \<open>min(total_frames, silence_start + max_sil_kept)\<close>. A shorter open run adds no cut, and the
  last chunk then runs from a frame at or before \<open>silence_start\<close> to \<open>total_frames\<close>: the
  run stays in the final segment.
\<close>

theorem trailing_cut_rule:
  assumes "0 \<le> max_sil_kept sl" "scan_loop sl rms_list 0 rms_list init_state = Inr st"
  shows "(case silence_start st of
            None \<Rightarrow> trailing sl rms_list st = Inr (sil_tags st)
          | Some ss \<Rightarrow>
              if int (length rms_list) - ss \<ge> min_interval sl
              then \<exists>pos. first_min rms_list ss (min (int (length rms_list)) (ss + max_sil_kept sl)) pos \<and>
                     trailing sl rms_list st = Inr (sil_tags st @ [(pos, int (length rms_list) + 1)])
              else trailing sl rms_list st = Inr (sil_tags st) \<and>
                   (\<exists>b c. b \<le> ss \<and>
                      last (make_chunks sl w (int (length rms_list)) (sil_tags st)) =
                        Triple c (b * hop_size sl) (int (length rms_list) * hop_size sl)))"
proof -
  let ?n = "int (length rms_list)"
  from scan_total [OF assms(1), of rms_list] assms(2) have inv: "scan_inv ?n st" by auto
  note tc = trailing_cases [OF inv assms(1)]
  show ?thesis
  proof (cases "silence_start st")
    case None
    with tc show ?thesis by simp
  next
    case (Some ss)
    show ?thesis
    proof (cases "?n - ss \<ge> min_interval sl")
      case True
      with tc Some show ?thesis by simp
    next
      case False
      from inv Some have t: "0 \<le> ss" "ss < ?n" "tags_within ss (sil_tags st)"
        by (simp_all add: scan_inv_def)
      have "\<exists>b c. b \<le> ss \<and> last (make_chunks sl w ?n (sil_tags st)) =
                  Triple c (b * hop_size sl) (?n * hop_size sl)"
      proof (cases "sil_tags st = []")
        case True
        with t(1) show ?thesis
          by (intro exI [of _ 0] exI [of _ w]) (simp add: make_chunks_def)
      next
        case ne: False
        then have "last (sil_tags st) \<in> set (sil_tags st)" by simp
        with t(3) have "snd (last (sil_tags st)) < ss" by (simp add: tags_within_def)
        with t(2) ne show ?thesis
          by (intro exI [of _ "snd (last (sil_tags st))"]
                exI [of _ "apply_slice sl w (snd (last (sil_tags st))) ?n"])
             (simp add: make_chunks_def)
      qed
      with tc Some False show ?thesis by simp
    qed
  qed
qed

theorem trailing_cut_rule_witness:
  "scan_loop \<lparr>threshold = 1, hop_size = 2, win_size = 2, min_length = 4, min_interval = 2, max_sil_kept = 1\<rparr>
      [1, 1, 0, 0, 0] 0 [1, 1, 0, 0, 0] init_state
     = Inr \<lparr>silence_start = Some 2, clip_start = 0, sil_tags = []\<rparr> \<and>
   trailing \<lparr>threshold = 1, hop_size = 2, win_size = 2, min_length = 4, min_interval = 2, max_sil_kept = 1\<rparr>
      [1, 1, 0, 0, 0] \<lparr>silence_start = Some 2, clip_start = 0, sil_tags = []\<rparr> = Inr [(2, 6)] \<and>
   scan_loop \<lparr>threshold = 1, hop_size = 2, win_size = 2, min_length = 4, min_interval = 2, max_sil_kept = 1\<rparr>
      [1, 1, 1, 1, 0] 0 [1, 1, 1, 1, 0] init_state
     = Inr \<lparr>silence_start = Some 4, clip_start = 0, sil_tags = []\<rparr> \<and>
   trailing \<lparr>threshold = 1, hop_size = 2, win_size = 2, min_length = 4, min_interval = 2, max_sil_kept = 1\<rparr>
      [1, 1, 1, 1, 0] \<lparr>silence_start = Some 4, clip_start = 0, sil_tags = []\<rparr> = Inr [] \<and>
   make_chunks \<lparr>threshold = 1, hop_size = 2, win_size = 2, min_length = 4, min_interval = 2, max_sil_kept = 1\<rparr>
      (Mono [1, 1, 1, 1, 1, 1, 1, 1, 0]) 5 [] = [Triple (Mono [1, 1, 1, 1, 1, 1, 1, 1, 0]) 0 10]"
  using trailing_cut_rule [of
      "\<lparr>threshold = 1, hop_size = 2, win_size = 2, min_length = 4, min_interval = 2, max_sil_kept = 1\<rparr>"
      "[1, 1, 0, 0, 0]" "\<lparr>silence_start = Some 2, clip_start = 0, sil_tags = []\<rparr>"
      "Mono [1, 1, 1, 1, 1, 1, 1, 1, 0]"]
    trailing_cut_rule [of
      "\<lparr>threshold = 1, hop_size = 2, win_size = 2, min_length = 4, min_interval = 2, max_sil_kept = 1\<rparr>"
      "[1, 1, 1, 1, 0]" "\<lparr>silence_start = Some 4, clip_start = 0, sil_tags = []\<rparr>"
      "Mono [1, 1, 1, 1, 1, 1, 1, 1, 0]"]
  by (simp add: run_defs)

text \<open>
  C9. Every minimum-energy search picks the first frame of least energy of its range:
  \<open>pos\<close> on \<open>[ss, i]\<close> in the short branch; \<open>pos\<close> on \<open>[i - m, ss + m]\<close>, \<open>pos_l\<close> on
  \<open>[ss, ss + m]\<close> and \<open>pos_r\<close> on \<open>[i - m, i]\<close> in the medium branch; \<open>pos_l\<close> and \<open>pos_r\<close>
  on the same ranges in the long branch; and \<open>pos\<close> on
  \<open>[s, min(total_frames, s + m)]\<close> in the trailing commit, with \<open>m = max_sil_kept\<close>.
  \<open>first_min\<close> says that the frame attains the minimum of the range and that every earlier
  frame of the range has strictly more energy.
\<close>

theorem min_search_first_occurrence:
  assumes "0 \<le> ss" "ss < i" "i < int (length rms_list)" "0 \<le> max_sil_kept sl"
  shows "(i - ss \<le> max_sil_kept sl \<longrightarrow>
            (\<exists>pos. first_min rms_list ss i pos \<and>
               commit_cut sl rms_list ss i st =
                 Inr (st \<lparr> silence_start := None, clip_start := pos,
                           sil_tags := sil_tags st @ [if ss = 0 then (0, pos) else (pos, pos)] \<rparr>))) \<and>
         (max_sil_kept sl < i - ss \<and> i - ss \<le> max_sil_kept sl * 2 \<longrightarrow>
            (\<exists>pos pos_l pos_r.
               first_min rms_list (i - max_sil_kept sl) (ss + max_sil_kept sl) pos \<and>
               first_min rms_list ss (ss + max_sil_kept sl) pos_l \<and>
               first_min rms_list (i - max_sil_kept sl) i pos_r \<and>
               commit_cut sl rms_list ss i st =
                 Inr (if ss = 0
                      then st \<lparr> silence_start := None, clip_start := pos_r,
                                sil_tags := sil_tags st @ [(0, pos_r)] \<rparr>
                      else st \<lparr> silence_start := None, clip_start := max pos_r pos,
                                sil_tags := sil_tags st @ [(min pos_l pos, max pos_r pos)] \<rparr>))) \<and>
         (max_sil_kept sl * 2 < i - ss \<longrightarrow>
            (\<exists>pos_l pos_r.
               first_min rms_list ss (ss + max_sil_kept sl) pos_l \<and>
               first_min rms_list (i - max_sil_kept sl) i pos_r \<and>
               commit_cut sl rms_list ss i st =
                 Inr (st \<lparr> silence_start := None, clip_start := pos_r,
                           sil_tags := sil_tags st @ [if ss = 0 then (0, pos_r) else (pos_l, pos_r)] \<rparr>))) \<and>
         (\<forall>s. silence_start st = Some s \<and> 0 \<le> s \<and> s < int (length rms_list) \<and>
               int (length rms_list) - s \<ge> min_interval sl \<longrightarrow>
            (\<exists>pos. first_min rms_list s (min (int (length rms_list)) (s + max_sil_kept sl)) pos \<and>
               trailing sl rms_list st = Inr (sil_tags st @ [(pos, int (length rms_list) + 1)])))"
proof (intro conjI impI allI)
  assume "i - ss \<le> max_sil_kept sl"
  from commit_cut_short [OF assms(1-3) this]
  show "\<exists>pos. first_min rms_list ss i pos \<and>
               commit_cut sl rms_list ss i st =
                 Inr (st \<lparr> silence_start := None, clip_start := pos,
                           sil_tags := sil_tags st @ [if ss = 0 then (0, pos) else (pos, pos)] \<rparr>)" .
next
  assume "max_sil_kept sl < i - ss \<and> i - ss \<le> max_sil_kept sl * 2"
  then have m: "max_sil_kept sl < i - ss" "i - ss \<le> max_sil_kept sl * 2" by simp_all
  from commit_cut_medium [OF assms(1-3) m]
  show "\<exists>pos pos_l pos_r.
               first_min rms_list (i - max_sil_kept sl) (ss + max_sil_kept sl) pos \<and>
               first_min rms_list ss (ss + max_sil_kept sl) pos_l \<and>
               first_min rms_list (i - max_sil_kept sl) i pos_r \<and>
               commit_cut sl rms_list ss i st =
                 Inr (if ss = 0
                      then st \<lparr> silence_start := None, clip_start := pos_r,
                                sil_tags := sil_tags st @ [(0, pos_r)] \<rparr>
                      else st \<lparr> silence_start := None, clip_start := max pos_r pos,
                                sil_tags := sil_tags st @ [(min pos_l pos, max pos_r pos)] \<rparr>)" .
next
  assume "max_sil_kept sl * 2 < i - ss"
  from commit_cut_long [OF assms(1-4) this]
  show "\<exists>pos_l pos_r.
               first_min rms_list ss (ss + max_sil_kept sl) pos_l \<and>
               first_min rms_list (i - max_sil_kept sl) i pos_r \<and>
               commit_cut sl rms_list ss i st =
                 Inr (st \<lparr> silence_start := None, clip_start := pos_r,
                           sil_tags := sil_tags st @ [if ss = 0 then (0, pos_r) else (pos_l, pos_r)] \<rparr>)" .
next
  fix s
  let ?n = "int (length rms_list)"
  assume a: "silence_start st = Some s \<and> 0 \<le> s \<and> s < ?n \<and> ?n - s \<ge> min_interval sl"
  then have "s \<le> min ?n (s + max_sil_kept sl)" using assms(4) by simp
  from argmin_at_ex [OF _ this, of rms_list] a obtain pos where
    "argmin_at rms_list s (min ?n (s + max_sil_kept sl) + 1) = Inr pos"
    "first_min rms_list s (min ?n (s + max_sil_kept sl)) pos" by blast
  with a show "\<exists>pos. first_min rms_list s (min ?n (s + max_sil_kept sl)) pos \<and>
               trailing sl rms_list st = Inr (sil_tags st @ [(pos, ?n + 1)])"
    by (auto simp: trailing_def Let_def ebind_def)
qed

theorem min_search_first_occurrence_witness:
  "commit_cut \<lparr>threshold = 1, hop_size = 2, win_size = 2, min_length = 1, min_interval = 1, max_sil_kept = 2\<rparr>
      [1, 0, 0, 1] 1 3 \<lparr>silence_start = Some 1, clip_start = 0, sil_tags = []\<rparr>
     = Inr \<lparr>silence_start = None, clip_start = 1, sil_tags = [(1, 1)]\<rparr> \<and>
   commit_cut \<lparr>threshold = 1, hop_size = 2, win_size = 2, min_length = 1, min_interval = 1, max_sil_kept = 1\<rparr>
      [1, 0, 0, 1] 1 3 \<lparr>silence_start = Some 1, clip_start = 0, sil_tags = []\<rparr>
     = Inr \<lparr>silence_start = None, clip_start = 2, sil_tags = [(1, 2)]\<rparr> \<and>
   commit_cut \<lparr>threshold = 1, hop_size = 2, win_size = 2, min_length = 1, min_interval = 1, max_sil_kept = 1\<rparr>
      [1, 0, 0, 0, 0, 1] 1 5 \<lparr>silence_start = Some 1, clip_start = 0, sil_tags = []\<rparr>
     = Inr \<lparr>silence_start = None, clip_start = 4, sil_tags = [(1, 4)]\<rparr> \<and>
   trailing \<lparr>threshold = 1, hop_size = 2, win_size = 2, min_length = 1, min_interval = 1, max_sil_kept = 1\<rparr>
      [1, 0, 0] \<lparr>silence_start = Some 1, clip_start = 0, sil_tags = []\<rparr> = Inr [(1, 4)]"
  using min_search_first_occurrence [of 1 3 "[1, 0, 0, 1]"
      "\<lparr>threshold = 1, hop_size = 2, win_size = 2, min_length = 1, min_interval = 1, max_sil_kept = 2\<rparr>"
      "\<lparr>silence_start = Some 1, clip_start = 0, sil_tags = []\<rparr>"]
    min_search_first_occurrence [of 1 3 "[1, 0, 0, 1]"
      "\<lparr>threshold = 1, hop_size = 2, win_size = 2, min_length = 1, min_interval = 1, max_sil_kept = 1\<rparr>"
      "\<lparr>silence_start = Some 1, clip_start = 0, sil_tags = []\<rparr>"]
    min_search_first_occurrence [of 1 5 "[1, 0, 0, 0, 0, 1]"
      "\<lparr>threshold = 1, hop_size = 2, win_size = 2, min_length = 1, min_interval = 1, max_sil_kept = 1\<rparr>"
      "\<lparr>silence_start = Some 1, clip_start = 0, sil_tags = []\<rparr>"]
    min_search_first_occurrence [of 1 2 "[1, 0, 0]"
      "\<lparr>threshold = 1, hop_size = 2, win_size = 2, min_length = 1, min_interval = 1, max_sil_kept = 1\<rparr>"
      "\<lparr>silence_start = Some 1, clip_start = 0, sil_tags = []\<rparr>"]
  by (simp add: run_defs)

text \<open>
  C7. With a positive \<open>hop_size\<close> and a non-negative \<open>max_sil_kept\<close>, the elements that
  \<open>slice\<close> returns are strictly increasing in their start offsets and in their end offsets,
  and each one ends at or before the start of every later one, so no two overlap.
\<close>

theorem segments_ordered:
  assumes "0 < hop_size sl" "0 \<le> max_sil_kept sl" "slice rms_fn sl w = Inr chunks"
  shows "sorted_wrt (\<lambda>x y. chunk_start x < chunk_start y) chunks \<and>
         sorted_wrt (\<lambda>x y. chunk_end x < chunk_end y) chunks \<and>
         sorted_wrt (\<lambda>x y. chunk_end x \<le> chunk_start y) chunks"
proof (cases "int (length (mono_samples w)) \<le> min_length sl")
  case True
  with assms(3) have "chunks = [Bare w]" by (simp add: slice_def)
  then show ?thesis by simp
next
  case False
  with assms(3) obtain rms_list tags where
    r: "rms_fn (mono_samples w) (win_size sl) (hop_size sl) = Inr rms_list"
    and t: "cut_ranges sl rms_list = Inr tags"
    and c: "chunks = make_chunks sl w (int (length rms_list)) tags"
    by (auto simp: slice_def ebind_def Let_def split: sum.splits)
  from cut_ranges_total [OF assms(2), of rms_list] t
  have "tags_sorted tags" "tags_within (int (length rms_list) + 2) tags" by simp_all
  from make_chunks_ordered [OF this assms(1)] c show ?thesis by simp
qed

theorem segments_ordered_witness:
  "slice (fixed_envelope [0, 0, 0, 1, 1, 1, 1, 0, 0, 1, 1, 1, 1, 0, 1, 0])
      \<lparr>threshold = 1, hop_size = 2, win_size = 2, min_length = 4, min_interval = 1, max_sil_kept = 1\<rparr>
      (Mono [0, 0, 0, 0, 0, 0, 1, 1, 1, 1, 1, 1, 1, 1, 0, 0, 0, 0, 1, 1, 1, 1, 1, 1, 1, 1, 0, 0, 1, 1, 0])
     = Inr [Triple (Mono [0, 0, 1, 1, 1, 1, 1, 1, 1, 1]) 4 14,
            Triple (Mono [0, 0, 1, 1, 1, 1, 1, 1, 1, 1]) 16 26,
            Triple (Mono [0, 0, 1, 1]) 26 30]"
  using segments_ordered [of
      "\<lparr>threshold = 1, hop_size = 2, win_size = 2, min_length = 4, min_interval = 1, max_sil_kept = 1\<rparr>"
      "fixed_envelope [0, 0, 0, 1, 1, 1, 1, 0, 0, 1, 1, 1, 1, 0, 1, 0]"
      "Mono [0, 0, 0, 0, 0, 0, 1, 1, 1, 1, 1, 1, 1, 1, 0, 0, 0, 0, 1, 1, 1, 1, 1, 1, 1, 1, 0, 0, 1, 1, 0]"]
  by (simp add: run_defs)

end
